theory Spec2Isabelle
  imports Complex_Main "HOL-Library.Multiset" "HOL-Library.Sublist"
begin

section \<open>Python values used by the two scripts\<close>

text \<open>
  Both scripts build a dictionary with the keys \<open>vertices\<close> and \<open>edges\<close> and hand it to
  \<open>json.dumps\<close>. The dictionary is modelled as a JSON value; a Python dictionary keeps
  its keys in insertion order, hence the association list.
\<close>

datatype json = JString string | JInt int | JArray "json list" | JObject "(string \<times> json) list"

datatype py_error = IndexError

text \<open>An edge is the two-element Python list that the scripts append to \<open>edges\<close>.\<close>

type_synonym edge = "nat list"

text \<open>\<open>range(n)\<close>: empty when \<open>n \<le> 0\<close>. Its elements are never negative.\<close>

definition range_py :: "int \<Rightarrow> nat list" where
  "range_py n = [0..<nat n]"

text \<open>\<open>xs[i]\<close> on a Python list: a negative index counts from the end, anything
  outside \<open>[-len, len)\<close> raises \<open>IndexError\<close>.\<close>

definition getitem :: "'a list \<Rightarrow> int \<Rightarrow> py_error + 'a" where
  "getitem xs i =
     (if 0 \<le> i \<and> i < int (length xs) then Inr (xs ! nat i)
      else if i < 0 \<and> - int (length xs) \<le> i then Inr (xs ! nat (int (length xs) + i))
      else Inl IndexError)"

text \<open>The decimal form of a non-negative integer, as \<open>f"{i+1}"\<close> prints it.\<close>

definition digit :: "nat \<Rightarrow> char" where
  "digit d = ''0123456789'' ! d"

function str_nat :: "nat \<Rightarrow> string" where
  "str_nat n = (if n < 10 then [digit n] else str_nat (n div 10) @ [digit (n mod 10)])"
  by pat_completeness auto
termination
  by (relation "measure (\<lambda>n. n)") auto

declare str_nat.simps [simp del]

section \<open>The random source\<close>

text \<open>
  The scripts draw from the process-wide generator of Python's \<open>random\<close> module. Its
  state is made explicit: a source is the sequence of raw outputs the generator will
  deliver, and the position of the next unread output is threaded through every call.
  \<open>random.random()\<close> returns a multiple of \<open>2\<^sup>-\<^sup>5\<^sup>3\<close> in \<open>[0, 1)\<close>; \<open>_randbelow(n)\<close>
  returns an integer in \<open>[0, n)\<close>. Every value of either range is delivered by some
  source.
\<close>

type_synonym source = "nat \<Rightarrow> nat"

definition random :: "source \<Rightarrow> nat \<Rightarrow> rat \<times> nat" where
  "random src pos = (of_nat (src pos mod 2 ^ 53) / 2 ^ 53, Suc pos)"

definition randbelow :: "source \<Rightarrow> nat \<Rightarrow> nat \<Rightarrow> nat \<times> nat" where
  "randbelow src n pos = (src pos mod n, Suc pos)"

text \<open>
  \<open>random.shuffle(x)\<close> of the standard library:
  \<^verbatim>\<open>
  for i in reversed(range(1, len(x))):
      j = randbelow(i + 1)
      x[i], x[j] = x[j], x[i]
  \<close>
  The right-hand side of the swap is read before either element is written.
\<close>

fun shuffle_loop :: "source \<Rightarrow> nat list \<Rightarrow> 'a list \<times> nat \<Rightarrow> 'a list \<times> nat" where
  "shuffle_loop src [] st = st"
| "shuffle_loop src (i # is) (x, pos) =
     (let (j, pos') = randbelow src (i + 1) pos
      in shuffle_loop src is (x[i := x ! j, j := x ! i], pos'))"

definition shuffle :: "source \<Rightarrow> 'a list \<Rightarrow> nat \<Rightarrow> 'a list \<times> nat" where
  "shuffle src x pos = shuffle_loop src (rev [1..<length x]) (x, pos)"

section \<open>The output document\<close>

text \<open>\<open>vertices = [f"{i+1}" for i in range(NUMBER_OF_VERTICES)]\<close>, in both scripts.\<close>

definition vertices :: "int \<Rightarrow> string list" where
  "vertices N = map (\<lambda>i. str_nat (i + 1)) (range_py N)"

definition edge_json :: "edge \<Rightarrow> json" where
  "edge_json e = JArray (map (\<lambda>v. JInt (int v)) e)"

text \<open>\<open>{ "vertices": vertices, "edges": edges }\<close>\<close>

definition document :: "string list \<Rightarrow> edge list \<Rightarrow> json" where
  "document vs es =
     JObject [(''vertices'', JArray (map JString vs)), (''edges'', JArray (map edge_json es))]"

section \<open>The cycle generator (graph2.py)\<close>

text \<open>
  \<^verbatim>\<open>
  for i in range(NUMBER_OF_VERTICES - 1):
      edges.append([indices[i], indices[i+1]])
  \<close>
\<close>

fun edge_loop :: "nat list \<Rightarrow> nat list \<Rightarrow> edge list \<Rightarrow> py_error + edge list" where
  "edge_loop indices [] edges = Inr edges"
| "edge_loop indices (i # is) edges =
     (case getitem indices (int i) of
        Inl err \<Rightarrow> Inl err
      | Inr a \<Rightarrow>
          (case getitem indices (int i + 1) of
             Inl err \<Rightarrow> Inl err
           | Inr b \<Rightarrow> edge_loop indices is (edges @ [[a, b]])))"

text \<open>The index list after \<open>random.shuffle(indices)\<close>; the shuffle is the first and
  only consumer of the random source in this script.\<close>

definition shuffled :: "source \<Rightarrow> int \<Rightarrow> nat list" where
  "shuffled src N = fst (shuffle src (range_py N) 0)"

text \<open>The edge list when the script reaches the file write, or the exception that
  stopped it: \<open>indices[-1]\<close> raises on an empty list.\<close>

definition cycle_edges :: "source \<Rightarrow> int \<Rightarrow> py_error + edge list" where
  "cycle_edges src N =
     (let indices = shuffled src N in
      case edge_loop indices (range_py (N - 1)) [] of
        Inl err \<Rightarrow> Inl err
      | Inr edges \<Rightarrow>
          (case getitem indices (- 1) of
             Inl err \<Rightarrow> Inl err
           | Inr l \<Rightarrow>
               (case getitem indices 0 of
                  Inl err \<Rightarrow> Inl err
                | Inr f \<Rightarrow> Inr (edges @ [[l, f]]))))"

definition cycle_document :: "source \<Rightarrow> int \<Rightarrow> py_error + json" where
  "cycle_document src N =
     (case cycle_edges src N of
        Inl err \<Rightarrow> Inl err
      | Inr edges \<Rightarrow> Inr (document (vertices N) edges))"

text \<open>The script as committed: \<open>NUMBER_OF_VERTICES = 1000\<close>.\<close>

definition graph2 :: "source \<Rightarrow> py_error + json" where
  "graph2 src = cycle_document src 1000"

section \<open>The community graph generator (graph\_generation.py)\<close>

text \<open>
  \<^verbatim>\<open>
  for v in range(NUMBER_OF_VERTICES):
      if random.random() < 0.5:
          community1.append(v)
      else:
          community2.append(v)
  \<close>
\<close>

fun assign_loop ::
  "source \<Rightarrow> nat list \<Rightarrow> nat list \<times> nat list \<times> nat \<Rightarrow> nat list \<times> nat list \<times> nat" where
  "assign_loop src [] st = st"
| "assign_loop src (v # vs) (community1, community2, pos) =
     (let (r, pos') = random src pos
      in if r < 1 / 2
         then assign_loop src vs (community1 @ [v], community2, pos')
         else assign_loop src vs (community1, community2 @ [v], pos'))"

definition communities :: "source \<Rightarrow> int \<Rightarrow> nat list \<times> nat list \<times> nat" where
  "communities src N = assign_loop src (range_py N) ([], [], 0)"

definition community1 :: "source \<Rightarrow> int \<Rightarrow> nat list" where
  "community1 src N = fst (communities src N)"

definition community2 :: "source \<Rightarrow> int \<Rightarrow> nat list" where
  "community2 src N = fst (snd (communities src N))"

text \<open>
  The three edge loops. The thresholds are the literals \<open>0.01\<close>, \<open>0.01\<close> and \<open>0.001\<close>
  in the script; they are parameters here. Every list read is at an index drawn from
  \<open>range(len(...))\<close> of the list read, so none can raise.
  \<^verbatim>\<open>
  for i in range(len(community1)):
      for j in range(i+1, len(community1)):
          if random.random() < 0.01:
              edges.append([community1[i], community1[j]])
  \<close>
\<close>

fun intra_inner ::
  "source \<Rightarrow> rat \<Rightarrow> nat list \<Rightarrow> nat \<Rightarrow> nat list \<Rightarrow> edge list \<times> nat \<Rightarrow> edge list \<times> nat" where
  "intra_inner src p c i [] st = st"
| "intra_inner src p c i (j # js) (edges, pos) =
     (let (r, pos') = random src pos
      in intra_inner src p c i js (if r < p then edges @ [[c ! i, c ! j]] else edges, pos'))"

fun intra_outer ::
  "source \<Rightarrow> rat \<Rightarrow> nat list \<Rightarrow> nat list \<Rightarrow> edge list \<times> nat \<Rightarrow> edge list \<times> nat" where
  "intra_outer src p c [] st = st"
| "intra_outer src p c (i # is) st =
     intra_outer src p c is (intra_inner src p c i [i + 1..<length c] st)"

text \<open>
  \<^verbatim>\<open>
  for i in range(len(community1)):
      for j in range(len(community2)):
          if random.random() < 0.001:
              edges.append([community1[i], community2[j]])
  \<close>
\<close>

fun inter_inner ::
  "source \<Rightarrow> rat \<Rightarrow> nat list \<Rightarrow> nat list \<Rightarrow> nat \<Rightarrow> nat list \<Rightarrow> edge list \<times> nat
     \<Rightarrow> edge list \<times> nat" where
  "inter_inner src p c d i [] st = st"
| "inter_inner src p c d i (j # js) (edges, pos) =
     (let (r, pos') = random src pos
      in inter_inner src p c d i js (if r < p then edges @ [[c ! i, d ! j]] else edges, pos'))"

fun inter_outer ::
  "source \<Rightarrow> rat \<Rightarrow> nat list \<Rightarrow> nat list \<Rightarrow> nat list \<Rightarrow> edge list \<times> nat \<Rightarrow> edge list \<times> nat" where
  "inter_outer src p c d [] st = st"
| "inter_outer src p c d (i # is) st =
     inter_outer src p c d is (inter_inner src p c d i [0..<length d] st)"

text \<open>The edge list and the position of the random source when the script reaches
  the file write.\<close>

definition community_run :: "source \<Rightarrow> int \<Rightarrow> rat \<Rightarrow> rat \<Rightarrow> rat \<Rightarrow> edge list \<times> nat" where
  "community_run src N p1 p2 p3 =
     (let (c1, c2, pos) = communities src N;
          st1 = intra_outer src p1 c1 [0..<length c1] ([], pos);
          st2 = intra_outer src p2 c2 [0..<length c2] st1
      in inter_outer src p3 c1 c2 [0..<length c1] st2)"

definition community_edges :: "source \<Rightarrow> int \<Rightarrow> rat \<Rightarrow> rat \<Rightarrow> rat \<Rightarrow> edge list" where
  "community_edges src N p1 p2 p3 = fst (community_run src N p1 p2 p3)"

definition community_document :: "source \<Rightarrow> int \<Rightarrow> rat \<Rightarrow> rat \<Rightarrow> rat \<Rightarrow> json" where
  "community_document src N p1 p2 p3 = document (vertices N) (community_edges src N p1 p2 p3)"

text \<open>The script as committed.\<close>

definition graph_generation :: "source \<Rightarrow> json" where
  "graph_generation src = community_document src 1000 (1 / 100) (1 / 100) (1 / 1000)"

section \<open>Notions used to state the properties\<close>

text \<open>The outcome of the coin toss that places vertex \<open>v\<close>: the assignment loop is the
  first consumer of the random source, so vertex \<open>v\<close> reads position \<open>v\<close>.\<close>

definition heads :: "source \<Rightarrow> nat \<Rightarrow> bool" where
  "heads src v = (fst (random src v) < 1 / 2)"

text \<open>The candidates that an edge loop keeps when it starts reading the random source
  at \<open>pos\<close>: one draw per candidate, in order.\<close>

fun picks :: "source \<Rightarrow> rat \<Rightarrow> nat \<Rightarrow> 'a list \<Rightarrow> 'a list" where
  "picks src p pos [] = []"
| "picks src p pos (e # cs) =
     (if fst (random src pos) < p then e # picks src p (Suc pos) cs
      else picks src p (Suc pos) cs)"

text \<open>The candidate pairs in the order in which the nested loops visit them, first
  by index as the loops are written, then by structure of the list.\<close>

definition intra_pairs :: "'a list \<Rightarrow> 'a list list" where
  "intra_pairs c = concat (map (\<lambda>i. map (\<lambda>j. [c ! i, c ! j]) [i + 1..<length c]) [0..<length c])"

definition inter_pairs :: "'a list \<Rightarrow> 'a list \<Rightarrow> 'a list list" where
  "inter_pairs c d = concat (map (\<lambda>i. map (\<lambda>j. [c ! i, d ! j]) [0..<length d]) [0..<length c])"

fun pairs_of :: "'a list \<Rightarrow> 'a list list" where
  "pairs_of [] = []"
| "pairs_of (x # xs) = map (\<lambda>y. [x, y]) xs @ pairs_of xs"

definition cross :: "'a list \<Rightarrow> 'a list \<Rightarrow> 'a list list" where
  "cross c d = concat (map (\<lambda>x. map (\<lambda>y. [x, y]) d) c)"

definition candidates :: "nat list \<Rightarrow> nat list \<Rightarrow> edge list" where
  "candidates c d = pairs_of c @ pairs_of d @ cross c d"

text \<open>An edge joins the unordered pair \<open>{a, b}\<close> when it lists the two in either
  order; \<open>occurrences\<close> counts the edges of a list that join a given pair.\<close>

definition joins :: "edge \<Rightarrow> nat \<Rightarrow> nat \<Rightarrow> bool" where
  "joins e a b = (e = [a, b] \<or> e = [b, a])"

definition occurrences :: "edge list \<Rightarrow> nat \<Rightarrow> nat \<Rightarrow> nat" where
  "occurrences es a b = length (filter (\<lambda>e. joins e a b) es)"

text \<open>A source whose draws alternate between \<open>0\<close> and \<open>1/2\<close>, so that the even
  vertices fall into the first community and the odd ones into the second.\<close>

definition alternating :: source where
  "alternating = (*) 4503599627370496"

text \<open>The edges of the closed walk along a list: element \<open>k\<close> to its cyclic successor.\<close>

definition ring :: "'a list \<Rightarrow> 'a list list" where
  "ring sh = map (\<lambda>k. [sh ! k, sh ! (Suc k mod length sh)]) [0..<length sh]"

text \<open>\<open>incident\<close> counts the edges that have \<open>v\<close> as an endpoint, \<open>degree\<close> the endpoint
  positions that \<open>v\<close> fills (a self-loop fills two).\<close>

definition incident :: "edge list \<Rightarrow> nat \<Rightarrow> nat" where
  "incident es v = length (filter (\<lambda>e. v \<in> set e) es)"

definition degree :: "edge list \<Rightarrow> nat \<Rightarrow> nat" where
  "degree es v = count_list (concat es) v"

text \<open>A JSON value that is an array of exactly two strings.\<close>

fun string_pair :: "json \<Rightarrow> bool" where
  "string_pair (JArray [JString a, JString b]) = True"
| "string_pair _ = False"

text \<open>A source whose first draws make the shuffle of four indices end in the order
  \<open>[2, 0, 3, 1]\<close>, the example of the specification.\<close>

definition spec_example :: source where
  "spec_example = (\<lambda>pos. if pos < 2 then 1 else 0)"

section \<open>Auxiliary facts: the community generator\<close>

lemma random_snd: "snd (random src pos) = Suc pos"
  by (simp add: random_def)

lemma random_lt_1: "fst (random src pos) < 1"
  by (simp add: random_def)

lemma random_ge_0: "0 \<le> fst (random src pos)"
  by (simp add: random_def)

lemma assign_loop_upt:
  "assign_loop src [a..<b] (c1, c2, a) =
     (c1 @ filter (heads src) [a..<b], c2 @ filter (\<lambda>v. \<not> heads src v) [a..<b], max a b)"
proof (induction "b - a" arbitrary: a c1 c2)
  case 0
  then show ?case by simp
next
  case (Suc k)
  then have ab: "a < b" and k: "k = b - Suc a" by simp_all
  from ab have u: "[a..<b] = a # [Suc a..<b]" by (simp add: upt_conv_Cons)
  show ?case
    using Suc.hyps(1)[OF k] ab
    by (simp add: u heads_def random_def split_def max_def)
qed

lemma communities_eq:
  "communities src N =
     (filter (heads src) [0..<nat N], filter (\<lambda>v. \<not> heads src v) [0..<nat N], nat N)"
  using assign_loop_upt[of src 0 "nat N" "[]" "[]"]
  by (simp add: communities_def range_py_def)

lemma picks_append:
  "picks src p pos (xs @ ys) = picks src p pos xs @ picks src p (pos + length xs) ys"
  by (induction xs arbitrary: pos) simp_all

lemma intra_inner_picks:
  "intra_inner src p c i js (edges, pos) =
     (edges @ picks src p pos (map (\<lambda>j. [c ! i, c ! j]) js), pos + length js)"
  by (induction js arbitrary: edges pos) (simp_all add: split_def random_snd)

lemma intra_outer_picks:
  "intra_outer src p c is (edges, pos) =
     (edges @ picks src p pos (concat (map (\<lambda>i. map (\<lambda>j. [c ! i, c ! j]) [i + 1..<length c]) is)),
      pos + length (concat (map (\<lambda>i. map (\<lambda>j. [c ! i, c ! j]) [i + 1..<length c]) is)))"
  by (induction "is" arbitrary: edges pos) (simp_all add: intra_inner_picks picks_append)

lemma inter_inner_picks:
  "inter_inner src p c d i js (edges, pos) =
     (edges @ picks src p pos (map (\<lambda>j. [c ! i, d ! j]) js), pos + length js)"
  by (induction js arbitrary: edges pos) (simp_all add: split_def random_snd)

lemma inter_outer_picks:
  "inter_outer src p c d is (edges, pos) =
     (edges @ picks src p pos (concat (map (\<lambda>i. map (\<lambda>j. [c ! i, d ! j]) [0..<length d]) is)),
      pos + length (concat (map (\<lambda>i. map (\<lambda>j. [c ! i, d ! j]) [0..<length d]) is)))"
  by (induction "is" arbitrary: edges pos) (simp_all add: inter_inner_picks picks_append)

lemma picks_subseq: "subseq (picks src p pos cs) cs"
  by (induction cs arbitrary: pos) auto

lemma picks_all: "1 \<le> p \<Longrightarrow> picks src p pos cs = cs"
proof (induction cs arbitrary: pos)
  case Nil
  then show ?case by simp
next
  case (Cons e cs)
  have "fst (random src pos) < p"
    using random_lt_1[of src pos] Cons.prems by simp
  with Cons show ?case by simp
qed

lemma picks_none: "p \<le> 0 \<Longrightarrow> picks src p pos cs = []"
proof (induction cs arbitrary: pos)
  case Nil
  then show ?case by simp
next
  case (Cons e cs)
  have "\<not> fst (random src pos) < p"
    using random_ge_0[of src pos] Cons.prems by simp
  with Cons show ?case by simp
qed

lemma picks_cong:
  "(\<And>k. k < length cs \<Longrightarrow> src (pos + k) = src' (pos + k)) \<Longrightarrow>
     picks src p pos cs = picks src' p pos cs"
proof (induction cs arbitrary: pos)
  case Nil
  then show ?case by simp
next
  case (Cons e cs)
  have h: "src pos = src' pos" using Cons.prems[of 0] by simp
  have t: "picks src p (Suc pos) cs = picks src' p (Suc pos) cs"
  proof (rule Cons.IH)
    fix k assume "k < length cs"
    then show "src (Suc pos + k) = src' (Suc pos + k)"
      using Cons.prems[of "Suc k"] by simp
  qed
  show ?case by (simp add: t random_def h)
qed

lemma map_nth_fun: "map (\<lambda>j. f (xs ! j)) [0..<length xs] = map f xs"
proof -
  have "map (\<lambda>j. f (xs ! j)) [0..<length xs] = map f (map (\<lambda>j. xs ! j) [0..<length xs])"
    by simp
  then show ?thesis by (simp only: map_nth)
qed

lemma intra_pairs_pairs_of: "intra_pairs c = pairs_of c"
proof (induction c)
  case Nil
  then show ?case by (simp add: intra_pairs_def)
next
  case (Cons x xs)
  have "[0..<Suc (length xs)] = 0 # [Suc 0..<Suc (length xs)]"
    by (rule upt_conv_Cons) simp
  then have up: "[0..<Suc (length xs)] = 0 # map Suc [0..<length xs]"
    by (simp only: map_Suc_upt)
  have row0: "map (\<lambda>j. [x, (x # xs) ! j]) [Suc 0..<Suc (length xs)] = map (\<lambda>y. [x, y]) xs"
  proof -
    have "map (\<lambda>j. [x, (x # xs) ! j]) (map Suc [0..<length xs]) = map (\<lambda>j. [x, xs ! j]) [0..<length xs]"
      by simp
    then show ?thesis
      by (simp only: map_Suc_upt map_nth_fun[of "\<lambda>y. [x, y]" xs])
  qed
  have rows: "map (\<lambda>j. [xs ! i, (x # xs) ! j]) [Suc (Suc i)..<Suc (length xs)]
      = map (\<lambda>j. [xs ! i, xs ! j]) [Suc i..<length xs]" for i
  proof -
    have "map (\<lambda>j. [xs ! i, (x # xs) ! j]) (map Suc [Suc i..<length xs])
        = map (\<lambda>j. [xs ! i, xs ! j]) [Suc i..<length xs]"
      by simp
    then show ?thesis by (simp only: map_Suc_upt)
  qed
  have "intra_pairs (x # xs) = map (\<lambda>y. [x, y]) xs @ intra_pairs xs"
    unfolding intra_pairs_def
    by (simp add: up row0 rows o_def del: upt_Suc)
  with Cons show ?case by simp
qed

lemma inter_pairs_cross: "inter_pairs c d = cross c d"
proof -
  have row: "map (\<lambda>j. [a, d ! j]) [0..<length d] = map (\<lambda>y. [a, y]) d" for a
    by (rule map_nth_fun)
  have "map (\<lambda>i. map (\<lambda>j. [c ! i, d ! j]) [0..<length d]) [0..<length c]
      = map (\<lambda>i. map (\<lambda>y. [c ! i, y]) d) [0..<length c]"
    by (simp only: row)
  also have "\<dots> = map (\<lambda>x. map (\<lambda>y. [x, y]) d) c"
    by (rule map_nth_fun)
  finally show ?thesis by (simp add: inter_pairs_def cross_def)
qed

lemma set_pairs_of:
  "distinct c \<Longrightarrow> set (pairs_of c) \<subseteq> {[a, b] | a b. a \<in> set c \<and> b \<in> set c \<and> a \<noteq> b}"
  by (induction c) auto

lemma set_cross: "set (cross c d) = {[a, b] | a b. a \<in> set c \<and> b \<in> set d}"
  by (auto simp: cross_def)

lemma length_cross: "length (cross c d) = length c * length d"
  by (induction c) (simp_all add: cross_def)

lemma twice_half: "2 * (n * (n - 1) div 2) = n * (n - Suc 0)" for n :: nat
  by (cases n) simp_all

lemma length_pairs_of: "length (pairs_of c) = length c * (length c - 1) div 2"
proof (induction c)
  case Nil
  then show ?case by simp
next
  case (Cons x xs)
  have "2 * length (pairs_of (x # xs)) = 2 * length xs + length xs * (length xs - 1)"
    using Cons twice_half[of "length xs"] by simp
  also have "\<dots> = Suc (length xs) * length xs"
    by (cases "length xs") simp_all
  finally have "2 * length (pairs_of (x # xs)) = Suc (length xs) * length xs" .
  then show ?case by simp
qed

lemma choose_two_split:
  "a * (a - 1) div 2 + b * (b - 1) div 2 + a * b = (a + b) * (a + b - 1) div 2" for a b :: nat
proof -
  have "2 * (a * (a - 1) div 2 + b * (b - 1) div 2 + a * b) = (a + b) * (a + b - 1)"
    using twice_half[of a] twice_half[of b]
    by (cases a; cases b) (simp_all add: algebra_simps)
  then show ?thesis by (metis nonzero_mult_div_cancel_left zero_neq_numeral)
qed

lemma community1_eq: "community1 src N = filter (heads src) [0..<nat N]"
  by (simp add: community1_def communities_eq)

lemma community2_eq: "community2 src N = filter (\<lambda>v. \<not> heads src v) [0..<nat N]"
  by (simp add: community2_def communities_eq)

lemma intra_outer_pairs:
  "intra_outer src p c [0..<length c] (edges, pos) =
     (edges @ picks src p pos (pairs_of c), pos + length (pairs_of c))"
  using intra_outer_picks[of src p c "[0..<length c]" edges pos]
  by (simp only: intra_pairs_def[symmetric] intra_pairs_pairs_of)

lemma inter_outer_cross:
  "inter_outer src p c d [0..<length c] (edges, pos) =
     (edges @ picks src p pos (cross c d), pos + length (cross c d))"
  using inter_outer_picks[of src p c d "[0..<length c]" edges pos]
  by (simp only: inter_pairs_def[symmetric] inter_pairs_cross)

lemma community_run_eq:
  "community_run src N p1 p2 p3 =
     (picks src p1 (nat N) (pairs_of (community1 src N))
        @ picks src p2 (nat N + length (pairs_of (community1 src N))) (pairs_of (community2 src N))
        @ picks src p3 (nat N + length (pairs_of (community1 src N))
                          + length (pairs_of (community2 src N)))
            (cross (community1 src N) (community2 src N)),
      nat N + length (candidates (community1 src N) (community2 src N)))"
  by (simp add: community_run_def communities_eq community1_eq community2_eq
      intra_outer_pairs inter_outer_cross candidates_def)

lemma community_edges_subseq:
  "subseq (community_edges src N p1 p2 p3) (candidates (community1 src N) (community2 src N))"
  unfolding community_edges_def community_run_eq candidates_def fst_conv
  by (intro list_emb_append_mono picks_subseq)

lemma distinct_keys_pairs_of: "distinct c \<Longrightarrow> distinct (map set (pairs_of c))"
proof (induction c)
  case Nil
  then show ?case by simp
next
  case (Cons x xs)
  have row: "distinct (map set (map (\<lambda>y. [x, y]) xs))"
    using Cons.prems by (auto simp: distinct_map inj_on_def doubleton_eq_iff)
  have sub: "set (pairs_of xs) \<subseteq> {[a, b] | a b. a \<in> set xs \<and> b \<in> set xs \<and> a \<noteq> b}"
    using Cons.prems by (intro set_pairs_of) simp
  have disj: "set (map set (map (\<lambda>y. [x, y]) xs)) \<inter> set (map set (pairs_of xs)) = {}"
  proof (rule ccontr)
    assume "\<not> ?thesis"
    then obtain y e where y: "y \<in> set xs" and e: "e \<in> set (pairs_of xs)" and eq: "{x, y} = set e"
      by auto
    from e sub obtain a b where "e = [a, b]" "a \<in> set xs" "b \<in> set xs" by blast
    with eq have "x \<in> set xs" by auto
    with Cons.prems show False by simp
  qed
  from row disj Cons show ?case by simp
qed

lemma distinct_keys_cross:
  "distinct c \<Longrightarrow> distinct d \<Longrightarrow> set c \<inter> set d = {} \<Longrightarrow> distinct (map set (cross c d))"
proof (induction c)
  case Nil
  then show ?case by (simp add: cross_def)
next
  case (Cons x xs)
  have cr: "cross (x # xs) d = map (\<lambda>y. [x, y]) d @ cross xs d"
    by (simp add: cross_def)
  have row: "distinct (map set (map (\<lambda>y. [x, y]) d))"
    using Cons.prems by (auto simp: distinct_map inj_on_def doubleton_eq_iff)
  have disj: "set (map set (map (\<lambda>y. [x, y]) d)) \<inter> set (map set (cross xs d)) = {}"
  proof (rule ccontr)
    assume "\<not> ?thesis"
    then obtain y e where y: "y \<in> set d" and e: "e \<in> set (cross xs d)" and eq: "{x, y} = set e"
      by auto
    from e obtain a b where "e = [a, b]" "a \<in> set xs" "b \<in> set d"
      by (auto simp: set_cross)
    with eq have "x \<in> set xs \<or> x \<in> set d" by auto
    with Cons.prems show False by auto
  qed
  have "distinct (map set (cross xs d))"
    using Cons by auto
  with row disj show ?case by (simp add: cr)
qed

lemma distinct_keys_candidates:
  assumes "distinct c" "distinct d" "set c \<inter> set d = {}"
  shows "distinct (map set (candidates c d))"
proof -
  have sc: "set (pairs_of c) \<subseteq> {[a, b] | a b. a \<in> set c \<and> b \<in> set c \<and> a \<noteq> b}"
    and sd: "set (pairs_of d) \<subseteq> {[a, b] | a b. a \<in> set d \<and> b \<in> set d \<and> a \<noteq> b}"
    by (rule set_pairs_of[OF assms(1)], rule set_pairs_of[OF assms(2)])
  have d1: "set (map set (pairs_of c)) \<inter> set (map set (pairs_of d)) = {}"
  proof (rule ccontr)
    assume "\<not> ?thesis"
    then obtain e f where e: "e \<in> set (pairs_of c)" and f: "f \<in> set (pairs_of d)" and eq: "set e = set f"
      by auto
    from e sc obtain a b where "e = [a, b]" "a \<in> set c" by blast
    moreover from f sd obtain a' b' where "f = [a', b']" "a' \<in> set d" "b' \<in> set d" by blast
    ultimately have "a \<in> set c \<inter> set d" using eq by auto
    with assms show False by simp
  qed
  have d2: "set (map set (pairs_of c)) \<inter> set (map set (cross c d)) = {}"
  proof (rule ccontr)
    assume "\<not> ?thesis"
    then obtain e f where e: "e \<in> set (pairs_of c)" and f: "f \<in> set (cross c d)" and eq: "set e = set f"
      by auto
    from e sc obtain a b where "e = [a, b]" "a \<in> set c" "b \<in> set c" by blast
    moreover from f obtain a' b' where "f = [a', b']" "b' \<in> set d"
      by (auto simp: set_cross)
    ultimately have "b' \<in> set c \<inter> set d" using eq by auto
    with assms show False by auto
  qed
  have d3: "set (map set (pairs_of d)) \<inter> set (map set (cross c d)) = {}"
  proof (rule ccontr)
    assume "\<not> ?thesis"
    then obtain e f where e: "e \<in> set (pairs_of d)" and f: "f \<in> set (cross c d)" and eq: "set e = set f"
      by auto
    from e sd obtain a b where "e = [a, b]" "a \<in> set d" "b \<in> set d" by blast
    moreover from f obtain a' b' where "f = [a', b']" "a' \<in> set c"
      by (auto simp: set_cross)
    ultimately have "a' \<in> set c \<inter> set d" using eq by auto
    with assms show False by auto
  qed
  show ?thesis
    using distinct_keys_pairs_of[OF assms(1)] distinct_keys_pairs_of[OF assms(2)]
      distinct_keys_cross[OF assms] d1 d2 d3
    by (simp add: candidates_def Int_Un_distrib)
qed

lemma set_candidates:
  assumes "distinct c" "distinct d" "set c \<inter> set d = {}"
  shows "set (candidates c d)
           \<subseteq> {[a, b] | a b. a \<in> set c \<union> set d \<and> b \<in> set c \<union> set d \<and> a \<noteq> b}"
proof -
  have "set (pairs_of c) \<subseteq> {[a, b] | a b. a \<in> set c \<and> b \<in> set c \<and> a \<noteq> b}"
    and "set (pairs_of d) \<subseteq> {[a, b] | a b. a \<in> set d \<and> b \<in> set d \<and> a \<noteq> b}"
    by (rule set_pairs_of[OF assms(1)], rule set_pairs_of[OF assms(2)])
  moreover have "set (cross c d) \<subseteq> {[a, b] | a b. a \<in> set c \<and> b \<in> set d \<and> a \<noteq> b}"
    using assms(3) by (auto simp: set_cross)
  ultimately show ?thesis
    unfolding candidates_def set_append by blast
qed

lemma occurrences_le_1:
  assumes "distinct (map set es)"
  shows "occurrences es a b \<le> 1"
proof -
  let ?fs = "filter (\<lambda>e. joins e a b) es"
  have d: "distinct (map set ?fs)"
    using assms by (rule distinct_map_filter)
  have "set (map set ?fs) \<subseteq> {{a, b}}"
    by (auto simp: joins_def)
  then have "card (set (map set ?fs)) \<le> card {{a, b}}"
    by (intro card_mono) simp_all
  moreover have "card (set (map set ?fs)) = length (map set ?fs)"
    using d by (rule distinct_card)
  ultimately have "length (map set ?fs) \<le> 1"
    by simp
  then show ?thesis by (simp add: occurrences_def)
qed

lemma pairs_of_covers:
  "a \<in> set c \<Longrightarrow> b \<in> set c \<Longrightarrow> a \<noteq> b \<Longrightarrow> [a, b] \<in> set (pairs_of c) \<or> [b, a] \<in> set (pairs_of c)"
  by (induction c) auto

lemma candidates_cover:
  assumes "a \<in> set c \<union> set d" "b \<in> set c \<union> set d" "a \<noteq> b"
  shows "\<exists>e \<in> set (candidates c d). joins e a b"
proof -
  consider "a \<in> set c" "b \<in> set c" | "a \<in> set d" "b \<in> set d"
    | "a \<in> set c" "b \<in> set d" | "a \<in> set d" "b \<in> set c"
    using assms by blast
  then show ?thesis
  proof cases
    case 1
    then show ?thesis
      using pairs_of_covers[of a c b] assms(3) by (auto simp: candidates_def joins_def)
  next
    case 2
    then show ?thesis
      using pairs_of_covers[of a d b] assms(3) by (auto simp: candidates_def joins_def)
  next
    case 3
    then have "[a, b] \<in> set (cross c d)" by (simp add: set_cross)
    then show ?thesis by (auto simp: candidates_def joins_def)
  next
    case 4
    then have "[b, a] \<in> set (cross c d)" by (simp add: set_cross)
    then show ?thesis by (auto simp: candidates_def joins_def)
  qed
qed

lemma occurrences_ge_1: "\<exists>e \<in> set es. joins e a b \<Longrightarrow> 1 \<le> occurrences es a b"
proof -
  assume "\<exists>e \<in> set es. joins e a b"
  then have "filter (\<lambda>e. joins e a b) es \<noteq> []"
    by (simp add: filter_empty_conv)
  then show ?thesis
    by (simp add: occurrences_def Suc_le_eq)
qed

lemma length_candidates:
  "length (candidates c d) = (length c + length d) * (length c + length d - 1) div 2"
  using choose_two_split[of "length c" "length d"]
  by (simp add: candidates_def length_pairs_of length_cross)

lemma communities_distinct:
  "distinct (community1 src N)" "distinct (community2 src N)"
  "set (community1 src N) \<inter> set (community2 src N) = {}"
  "set (community1 src N) \<union> set (community2 src N) = {0..<nat N}"
  "length (community1 src N) + length (community2 src N) = nat N"
  using sum_length_filter_compl[of "heads src" "[0..<nat N]"]
  by (auto simp: community1_eq community2_eq)

lemma subseq_distinct: "subseq xs ys \<Longrightarrow> distinct ys \<Longrightarrow> distinct xs"
  by (auto simp: subseq_conv_nths)

lemma subseq_set: "subseq xs ys \<Longrightarrow> set xs \<subseteq> set ys"
  by (metis subseq_conv_nths set_nths_subset)

lemma community_edge_shape:
  assumes "e \<in> set (community_edges src N p1 p2 p3)"
  shows "\<exists>a b. e = [a, b] \<and> a \<noteq> b \<and> a < nat N \<and> b < nat N"
proof -
  let ?c = "community1 src N" and ?d = "community2 src N"
  have "e \<in> set (candidates ?c ?d)"
    using assms subseq_set[OF community_edges_subseq[of src N p1 p2 p3]]
    by blast
  moreover have "set (candidates ?c ?d)
      \<subseteq> {[a, b] | a b. a \<in> set ?c \<union> set ?d \<and> b \<in> set ?c \<union> set ?d \<and> a \<noteq> b}"
    by (rule set_candidates[OF communities_distinct(1) communities_distinct(2)
          communities_distinct(3)])
  ultimately show ?thesis
    by (auto simp: communities_distinct(4))
qed

lemma community_edges_distinct_keys: "distinct (map set (community_edges src N p1 p2 p3))"
proof -
  have "subseq (map set (community_edges src N p1 p2 p3))
          (map set (candidates (community1 src N) (community2 src N)))"
    by (intro subseq_map community_edges_subseq)
  moreover have "distinct (map set (candidates (community1 src N) (community2 src N)))"
    by (intro distinct_keys_candidates communities_distinct)
  ultimately show ?thesis
    by (rule subseq_distinct)
qed

lemma community_edges_alternating_3:
  "community_edges alternating 3 1 1 1 = [[0, 2], [0, 1], [2, 1]]"
  by (simp add: community_edges_def community_run_eq community1_eq community2_eq heads_def
      random_def upt_conv_Cons cross_def alternating_def)

section \<open>Auxiliary facts: the cycle generator\<close>

lemma shuffle_loop_perm:
  "\<forall>i \<in> set is. i < length x \<Longrightarrow>
     mset (fst (shuffle_loop src is (x, pos))) = mset x
     \<and> length (fst (shuffle_loop src is (x, pos))) = length x"
proof (induction "is" arbitrary: x pos)
  case Nil
  then show ?case by simp
next
  case (Cons i "is")
  let ?j = "src pos mod (i + 1)"
  let ?x' = "x[i := x ! ?j, ?j := x ! i]"
  have i: "i < length x" using Cons.prems by simp
  have j: "?j < length x"
  proof -
    have "?j < i + 1" by simp
    with i show ?thesis by linarith
  qed
  have len: "length ?x' = length x" by simp
  have ms: "mset ?x' = mset x" using j i by (rule mset_swap[of ?j x i])
  have "\<forall>k \<in> set is. k < length ?x'" using Cons.prems by simp
  from Cons.IH[OF this, of "Suc pos"] ms show ?case
    by (simp add: randbelow_def)
qed

lemma shuffled_mset: "mset (shuffled src N) = mset [0..<nat N]"
  using shuffle_loop_perm[of "rev [1..<length (range_py N)]" "range_py N" src 0]
  by (simp add: shuffled_def shuffle_def range_py_def)

lemma shuffled_length: "length (shuffled src N) = nat N"
  using mset_eq_length[OF shuffled_mset[of src N]] by simp

lemma shuffled_distinct: "distinct (shuffled src N)"
  using mset_eq_imp_distinct_iff[OF shuffled_mset[of src N]] by simp

lemma shuffled_set: "set (shuffled src N) = {0..<nat N}"
  using mset_eq_setD[OF shuffled_mset[of src N]] by simp

lemma getitem_nat: "i < length xs \<Longrightarrow> getitem xs (int i) = Inr (xs ! i)"
  by (simp add: getitem_def)

lemma getitem_Suc: "Suc i < length xs \<Longrightarrow> getitem xs (int i + 1) = Inr (xs ! Suc i)"
  using getitem_nat[of "Suc i" xs] by (simp add: add.commute)

lemma getitem_zero: "xs \<noteq> [] \<Longrightarrow> getitem xs 0 = Inr (hd xs)"
  by (cases xs) (simp_all add: getitem_def)

lemma getitem_last: "xs \<noteq> [] \<Longrightarrow> getitem xs (- 1) = Inr (last xs)"
proof -
  assume ne: "xs \<noteq> []"
  then have "nat (int (length xs) + - 1) = length xs - 1" by (cases xs) simp_all
  with ne show ?thesis
    by (cases xs) (simp_all add: getitem_def last_conv_nth)
qed

lemma getitem_empty: "getitem [] i = Inl IndexError"
  by (simp add: getitem_def)

lemma edge_loop_eq:
  "\<forall>i \<in> set is. Suc i < length ind \<Longrightarrow>
     edge_loop ind is es = Inr (es @ map (\<lambda>i. [ind ! i, ind ! Suc i]) is)"
proof (induction "is" arbitrary: es)
  case Nil
  then show ?case by simp
next
  case (Cons i "is")
  have s: "Suc i < length ind" and i: "i < length ind" using Cons.prems by simp_all
  show ?case
    using Cons.IH[of "es @ [[ind ! i, ind ! Suc i]]"] Cons.prems
    by (simp add: getitem_nat[OF i] getitem_Suc[OF s])
qed

lemma ring_eq:
  assumes "sh \<noteq> []"
  shows "map (\<lambda>i. [sh ! i, sh ! Suc i]) [0..<length sh - 1] @ [[last sh, hd sh]] = ring sh"
proof -
  obtain n where n: "length sh = Suc n" using assms by (cases sh) auto
  have a: "map (\<lambda>k. [sh ! k, sh ! (Suc k mod Suc n)]) [0..<n] = map (\<lambda>i. [sh ! i, sh ! Suc i]) [0..<n]"
    by (rule map_cong) simp_all
  have b: "last sh = sh ! n" using assms n by (simp add: last_conv_nth)
  have c: "hd sh = sh ! 0" using assms by (simp add: hd_conv_nth)
  show ?thesis
    by (simp add: ring_def n a b c)
qed

lemma cycle_edges_ring:
  assumes "1 \<le> N"
  shows "cycle_edges src N = Inr (ring (shuffled src N))"
proof -
  let ?sh = "shuffled src N"
  have len: "length ?sh = nat N" by (rule shuffled_length)
  have ne: "?sh \<noteq> []" using len assms by auto
  have r: "range_py (N - 1) = [0..<length ?sh - 1]"
    using assms by (simp add: range_py_def len nat_diff_distrib)
  have "\<forall>i \<in> set [0..<length ?sh - 1]. Suc i < length ?sh" by auto
  then have loop: "edge_loop ?sh [0..<length ?sh - 1] []
      = Inr ([] @ map (\<lambda>i. [?sh ! i, ?sh ! Suc i]) [0..<length ?sh - 1])"
    by (rule edge_loop_eq)
  show ?thesis
    unfolding cycle_edges_def Let_def r loop
    using ring_eq[OF ne] by (simp add: getitem_last[OF ne] getitem_zero[OF ne])
qed

lemma cycle_edges_error:
  assumes "N \<le> 0"
  shows "cycle_edges src N = Inl IndexError"
proof -
  have "length (shuffled src N) = 0" using assms by (simp add: shuffled_length)
  then have e: "shuffled src N = []" by simp
  have r: "range_py (N - 1) = []" using assms by (simp add: range_py_def)
  show ?thesis
    by (simp add: cycle_edges_def e r getitem_empty)
qed

lemma length_ring: "length (ring sh) = length sh"
  by (simp add: ring_def)

lemma ring_nth: "k < length sh \<Longrightarrow> ring sh ! k = [sh ! k, sh ! (Suc k mod length sh)]"
  by (simp add: ring_def)

lemma map_hd_ring: "map hd (ring sh) = sh"
proof -
  have "map hd (ring sh) = map (\<lambda>k. sh ! k) [0..<length sh]"
    by (simp add: ring_def o_def)
  then show ?thesis by (simp only: map_nth)
qed

lemma map_last_ring: "map last (ring sh) = rotate1 sh"
proof (rule nth_equalityI)
  show "length (map last (ring sh)) = length (rotate1 sh)"
    by (simp add: length_ring)
next
  fix k assume "k < length (map last (ring sh))"
  then have k: "k < length sh" by (simp add: length_ring)
  then show "map last (ring sh) ! k = rotate1 sh ! k"
    by (simp add: length_ring ring_nth nth_rotate1)
qed

lemma mset_concat_pairs:
  "mset (concat (map (\<lambda>k. [f k, g k]) ks)) = mset (map f ks) + mset (map g ks)"
  by (induction ks) simp_all

lemma mset_rotate1_eq: "mset (rotate1 xs) = mset xs"
  by (cases xs) simp_all

lemma mset_concat_ring: "mset (concat (ring sh)) = mset sh + mset sh"
proof -
  have "mset (concat (ring sh)) = mset (map hd (ring sh)) + mset (map last (ring sh))"
    by (simp add: ring_def mset_concat_pairs o_def)
  then show ?thesis
    by (simp only: map_hd_ring map_last_ring mset_rotate1_eq)
qed

lemma degree_ring:
  assumes "distinct sh" "v \<in> set sh"
  shows "degree (ring sh) v = 2"
proof -
  have "count (mset sh) v = 1"
    using assms distinct_count_atmost_1[of sh] by simp
  then have "count (mset (concat (ring sh))) v = 2"
    by (simp add: mset_concat_ring)
  then show ?thesis
    by (simp add: degree_def count_mset)
qed

lemma ring_neighbours:
  assumes "2 \<le> n" "p < n"
  shows "{k. k < n \<and> (k = p \<or> Suc k mod n = p)} = {p, (if p = 0 then n - 1 else p - 1)}"
  using assms by (auto simp: mod_Suc split: if_splits)

lemma incident_ring:
  assumes "distinct sh" "v \<in> set sh" "2 \<le> length sh"
  shows "incident (ring sh) v = 2"
proof -
  let ?n = "length sh"
  obtain p where p: "p < ?n" and v: "v = sh ! p"
    using assms(2) by (auto simp: in_set_conv_nth)
  have pos: "0 < ?n" using p by linarith
  have m: "Suc k mod ?n < ?n" for k by (rule mod_less_divisor[OF pos])
  have "filter (\<lambda>e. v \<in> set e) (ring sh)
      = map (\<lambda>k. [sh ! k, sh ! (Suc k mod ?n)])
          (filter (\<lambda>k. v = sh ! k \<or> v = sh ! (Suc k mod ?n)) [0..<?n])"
    by (simp add: ring_def filter_map o_def)
  then have "incident (ring sh) v
      = length (filter (\<lambda>k. v = sh ! k \<or> v = sh ! (Suc k mod ?n)) [0..<?n])"
    by (simp add: incident_def)
  also have "\<dots> = card ({k. v = sh ! k \<or> v = sh ! (Suc k mod ?n)} \<inter> set [0..<?n])"
    by (rule distinct_length_filter) simp
  also have "{k. v = sh ! k \<or> v = sh ! (Suc k mod ?n)} \<inter> set [0..<?n]
      = {k. k < ?n \<and> (k = p \<or> Suc k mod ?n = p)}"
    using nth_eq_iff_index_eq[OF assms(1)] p m by (auto simp: v)
  also have "\<dots> = {p, (if p = 0 then ?n - 1 else p - 1)}"
    by (rule ring_neighbours[OF assms(3) p])
  also have "card \<dots> = 2"
    using assms(3) p by auto
  finally show ?thesis .
qed

lemma ring_keys_inj:
  assumes "distinct sh" "length sh = 1 \<or> 3 \<le> length sh"
  shows "inj_on (\<lambda>k. {sh ! k, sh ! (Suc k mod length sh)}) {0..<length sh}"
proof (rule inj_onI)
  let ?n = "length sh"
  fix k m
  assume k: "k \<in> {0..<?n}" and m: "m \<in> {0..<?n}"
    and eq: "{sh ! k, sh ! (Suc k mod ?n)} = {sh ! m, sh ! (Suc m mod ?n)}"
  have kn: "k < ?n" and mn: "m < ?n" using k m by simp_all
  have pos: "0 < ?n" using kn by linarith
  have k': "Suc k mod ?n < ?n" and m': "Suc m mod ?n < ?n"
    by (rule mod_less_divisor[OF pos])+
  from eq consider "sh ! k = sh ! m" | "sh ! k = sh ! (Suc m mod ?n)" "sh ! (Suc k mod ?n) = sh ! m"
    by (auto simp: doubleton_eq_iff)
  then show "k = m"
  proof cases
    case 1
    then show ?thesis using nth_eq_iff_index_eq[OF assms(1) kn mn] by simp
  next
    case 2
    have a: "k = Suc m mod ?n" using 2(1) nth_eq_iff_index_eq[OF assms(1) kn m'] by simp
    have b: "Suc k mod ?n = m" using 2(2) nth_eq_iff_index_eq[OF assms(1) k' mn] by simp
    from a b kn mn assms(2) show ?thesis
      by (auto simp: mod_Suc split: if_splits)
  qed
qed

lemma distinct_keys_ring:
  assumes "distinct sh" "length sh = 1 \<or> 3 \<le> length sh"
  shows "distinct (map set (ring sh))"
proof -
  have "map set (ring sh) = map (\<lambda>k. {sh ! k, sh ! (Suc k mod length sh)}) [0..<length sh]"
    by (simp add: ring_def o_def)
  moreover have "distinct (map (\<lambda>k. {sh ! k, sh ! (Suc k mod length sh)}) [0..<length sh])"
    using ring_keys_inj[OF assms] by (simp add: distinct_map)
  ultimately show ?thesis by simp
qed

lemma cycle_edges_explicit:
  assumes "1 \<le> N"
  shows "cycle_edges src N =
     Inr (map (\<lambda>i. [shuffled src N ! i, shuffled src N ! (i + 1)]) [0..<nat N - 1]
            @ [[last (shuffled src N), hd (shuffled src N)]])"
proof -
  have ne: "shuffled src N \<noteq> []"
    using shuffled_length[of src N] assms by auto
  show ?thesis
    using ring_eq[OF ne] by (simp add: cycle_edges_ring[OF assms] shuffled_length)
qed

lemma cycle_document_ring:
  "1 \<le> N \<Longrightarrow> cycle_document src N = Inr (document (vertices N) (ring (shuffled src N)))"
  by (simp add: cycle_document_def cycle_edges_ring)

lemma length_vertices: "length (vertices N) = nat N"
  by (simp add: vertices_def range_py_def)

lemma vertices_nth: "a < nat N \<Longrightarrow> vertices N ! a = str_nat (a + 1)"
  by (simp add: vertices_def range_py_def)

lemma shuffled_nth_less: "k < nat N \<Longrightarrow> shuffled src N ! k < nat N"
proof -
  assume "k < nat N"
  then have "shuffled src N ! k \<in> set (shuffled src N)"
    by (simp add: shuffled_length)
  then show ?thesis by (simp add: shuffled_set)
qed

lemma shuffled_spec_example: "shuffled spec_example 4 = [2, 0, 3, 1]"
  by (simp add: shuffled_def shuffle_def range_py_def randbelow_def spec_example_def upt_conv_Cons)

lemma shuffled_id_1: "shuffled id 1 = [0]"
  by (simp add: shuffled_def shuffle_def range_py_def)

lemma shuffled_id_2: "shuffled id 2 = [1, 0]"
  by (simp add: shuffled_def shuffle_def range_py_def randbelow_def upt_conv_Cons)

lemma shuffled_id_3: "shuffled id 3 = [2, 1, 0]"
  by (simp add: shuffled_def shuffle_def range_py_def randbelow_def upt_conv_Cons)

lemma cycle_edges_spec_example: "cycle_edges spec_example 4 = Inr [[2, 0], [0, 3], [3, 1], [1, 2]]"
  by (simp add: cycle_edges_ring shuffled_spec_example ring_def upt_conv_Cons)

lemma cycle_edges_id_1: "cycle_edges id 1 = Inr [[0, 0]]"
  by (simp add: cycle_edges_ring shuffled_id_1 ring_def)

lemma cycle_edges_id_2: "cycle_edges id 2 = Inr [[1, 0], [0, 1]]"
  by (simp add: cycle_edges_ring shuffled_id_2 ring_def upt_conv_Cons)

lemma cycle_edges_id_3: "cycle_edges id 3 = Inr [[2, 1], [1, 0], [0, 2]]"
  by (simp add: cycle_edges_ring shuffled_id_3 ring_def upt_conv_Cons)

lemma vertices_4: "vertices 4 = [''1'', ''2'', ''3'', ''4'']"
  by (simp add: vertices_def range_py_def upt_conv_Cons str_nat.simps digit_def)

section \<open>Auxiliary facts: dependence on the random source\<close>

lemma shuffle_loop_cong:
  "(\<And>k. k < length is \<Longrightarrow> src (pos + k) = src' (pos + k)) \<Longrightarrow>
     shuffle_loop src is (x, pos) = shuffle_loop src' is (x, pos)"
proof (induction "is" arbitrary: x pos)
  case Nil
  then show ?case by simp
next
  case (Cons i "is")
  have h: "src pos = src' pos" using Cons.prems[of 0] by simp
  let ?y = "x[i := x ! (src' pos mod (i + 1)), src' pos mod (i + 1) := x ! i]"
  have t: "shuffle_loop src is (?y, Suc pos) = shuffle_loop src' is (?y, Suc pos)"
  proof (rule Cons.IH)
    fix k assume "k < length is"
    then show "src (Suc pos + k) = src' (Suc pos + k)"
      using Cons.prems[of "Suc k"] by simp
  qed
  show ?case using t by (simp add: randbelow_def h)
qed

lemma shuffled_cong:
  assumes "\<forall>i < nat N - 1. src i = src' i"
  shows "shuffled src N = shuffled src' N"
proof -
  have "shuffle_loop src (rev [1..<length (range_py N)]) (range_py N, 0)
      = shuffle_loop src' (rev [1..<length (range_py N)]) (range_py N, 0)"
  proof (rule shuffle_loop_cong)
    fix k assume "k < length (rev [1..<length (range_py N)])"
    then have "k < nat N - 1" by (simp add: range_py_def)
    with assms show "src (0 + k) = src' (0 + k)" by simp
  qed
  then show ?thesis by (simp add: shuffled_def shuffle_def)
qed

lemma cycle_document_cong:
  assumes "\<forall>i < nat N - 1. src i = src' i"
  shows "cycle_document src N = cycle_document src' N"
  by (simp add: cycle_document_def cycle_edges_def shuffled_cong[OF assms])

lemma heads_cong: "src v = src' v \<Longrightarrow> heads src v = heads src' v"
  by (simp add: heads_def random_def)

lemma community1_cong:
  assumes "\<forall>i < nat N. src i = src' i"
  shows "community1 src N = community1 src' N"
proof -
  have "filter (heads src) [0..<nat N] = filter (heads src') [0..<nat N]"
  proof (rule filter_cong)
    show "[0..<nat N] = [0..<nat N]" by (rule refl)
  next
    fix v assume "v \<in> set [0..<nat N]"
    then have "src v = src' v" using assms by simp
    then show "heads src v = heads src' v" by (rule heads_cong)
  qed
  then show ?thesis by (simp only: community1_eq)
qed

lemma community2_cong:
  assumes "\<forall>i < nat N. src i = src' i"
  shows "community2 src N = community2 src' N"
proof -
  have "filter (\<lambda>v. \<not> heads src v) [0..<nat N] = filter (\<lambda>v. \<not> heads src' v) [0..<nat N]"
  proof (rule filter_cong)
    show "[0..<nat N] = [0..<nat N]" by (rule refl)
  next
    fix v assume "v \<in> set [0..<nat N]"
    then have "src v = src' v" using assms by simp
    then have "heads src v = heads src' v" by (rule heads_cong)
    then show "(\<not> heads src v) = (\<not> heads src' v)" by simp
  qed
  then show ?thesis by (simp only: community2_eq)
qed

lemma length_candidates_communities:
  "length (candidates (community1 src N) (community2 src N)) = nat N * (nat N - 1) div 2"
  by (simp only: length_candidates communities_distinct(5))

lemma community_edges_cong:
  assumes "\<forall>i < nat N + nat N * (nat N - 1) div 2. src i = src' i"
  shows "community_edges src N p1 p2 p3 = community_edges src' N p1 p2 p3"
proof -
  let ?c = "community1 src N" and ?d = "community2 src N"
  let ?a = "length (pairs_of ?c)" and ?b = "length (pairs_of ?d)" and ?x = "length (cross ?c ?d)"
  have tot: "?a + ?b + ?x = nat N * (nat N - 1) div 2"
    using length_candidates_communities[of src N] by (simp add: candidates_def)
  have pre: "\<forall>i < nat N. src i = src' i" using assms by simp
  have c: "community1 src' N = ?c" and d: "community2 src' N = ?d"
    using community1_cong[OF pre] community2_cong[OF pre] by simp_all
  have 1: "picks src p1 (nat N) (pairs_of ?c) = picks src' p1 (nat N) (pairs_of ?c)"
  proof (rule picks_cong)
    fix k assume "k < ?a"
    then have "nat N + k < nat N + nat N * (nat N - 1) div 2" using tot by linarith
    with assms show "src (nat N + k) = src' (nat N + k)" by blast
  qed
  have 2: "picks src p2 (nat N + ?a) (pairs_of ?d) = picks src' p2 (nat N + ?a) (pairs_of ?d)"
  proof (rule picks_cong)
    fix k assume "k < ?b"
    then have "nat N + ?a + k < nat N + nat N * (nat N - 1) div 2" using tot by linarith
    with assms show "src (nat N + ?a + k) = src' (nat N + ?a + k)" by blast
  qed
  have 3: "picks src p3 (nat N + ?a + ?b) (cross ?c ?d)
         = picks src' p3 (nat N + ?a + ?b) (cross ?c ?d)"
  proof (rule picks_cong)
    fix k assume "k < ?x"
    then have "nat N + ?a + ?b + k < nat N + nat N * (nat N - 1) div 2" using tot by linarith
    with assms show "src (nat N + ?a + ?b + k) = src' (nat N + ?a + ?b + k)" by blast
  qed
  show ?thesis
    by (simp add: community_edges_def community_run_eq c d 1 2 3)
qed

section \<open>The community generator: properties\<close>

text \<open>
  C4. For every vertex count and every random source the two community lists
  partition the index set \<open>{0, ..., N-1}\<close>: together they hold every index, they share
  none, and neither repeats an index.
\<close>

theorem community_partition:
  "set (community1 src N) \<union> set (community2 src N) = {0..<nat N}
   \<and> set (community1 src N) \<inter> set (community2 src N) = {}
   \<and> distinct (community1 src N) \<and> distinct (community2 src N)"
  by (simp add: communities_distinct)

text \<open>
  C5. With all three thresholds equal to 1 every draw passes, so the edge list has
  \<open>N (N - 1) / 2\<close> entries and every unordered pair of distinct indices below \<open>N\<close> is
  joined by exactly one of them. (For \<open>N < 2\<close> there is no pair and the list is empty.)
\<close>

theorem complete_graph_when_certain:
  "length (community_edges src N 1 1 1) = nat N * (nat N - 1) div 2
   \<and> (\<forall>a b. a < b \<and> b < nat N \<longrightarrow> occurrences (community_edges src N 1 1 1) a b = 1)"
proof -
  let ?c = "community1 src N" and ?d = "community2 src N"
  have all: "community_edges src N 1 1 1 = candidates ?c ?d"
    by (simp add: community_edges_def community_run_eq picks_all candidates_def)
  have len: "length (candidates ?c ?d) = nat N * (nat N - 1) div 2"
    by (simp only: length_candidates communities_distinct(5))
  have once: "occurrences (candidates ?c ?d) a b = 1" if "a < b" "b < nat N" for a b
  proof -
    have "a \<in> set ?c \<union> set ?d" "b \<in> set ?c \<union> set ?d" "a \<noteq> b"
      using that by (simp_all add: communities_distinct(4))
    then have "1 \<le> occurrences (candidates ?c ?d) a b"
      by (intro occurrences_ge_1 candidates_cover)
    moreover have "occurrences (candidates ?c ?d) a b \<le> 1"
      by (intro occurrences_le_1 distinct_keys_candidates communities_distinct)
    ultimately show ?thesis by simp
  qed
  show ?thesis using len once by (simp add: all)
qed

theorem complete_graph_when_certain_witness:
  "(1::nat) < 2 \<and> 2 < nat 3
   \<and> community_edges alternating 3 1 1 1 = [[0, 2], [0, 1], [2, 1]]
   \<and> length (community_edges alternating 3 1 1 1) = nat 3 * (nat 3 - 1) div 2
   \<and> occurrences (community_edges alternating 3 1 1 1) 1 2 = 1"
  using complete_graph_when_certain [of alternating 3] community_edges_alternating_3
  by simp

text \<open>
  C7. With all three thresholds equal to 0 no draw passes (a draw is never negative),
  so the edge list is empty, whatever the vertex count and the random source.
\<close>

theorem no_edges_when_impossible: "community_edges src N 0 0 0 = []"
  by (simp add: community_edges_def community_run_eq picks_none)

text \<open>
  C9. Every edge of the community generator is a two-element list of distinct vertex
  indices, both in \<open>[0, N)\<close>: there is no self-loop and no index out of range.
\<close>

theorem community_edge_endpoints:
  "e \<in> set (community_edges src N p1 p2 p3) \<Longrightarrow>
     \<exists>a b. e = [a, b] \<and> a \<noteq> b \<and> a < nat N \<and> b < nat N"
  by (rule community_edge_shape)

theorem community_edge_endpoints_witness:
  "[2, 1] \<in> set (community_edges alternating 3 1 1 1)
   \<and> (\<exists>a b. [2, 1] = [a, b] \<and> a \<noteq> b \<and> a < nat 3 \<and> b < nat 3)"
proof -
  have h: "[2, 1] \<in> set (community_edges alternating 3 1 1 1)"
    by (simp add: community_edges_alternating_3)
  show ?thesis
    using h community_edge_endpoints [OF h] by simp
qed

text \<open>
  C10. The community generator lists no unordered pair of vertex indices twice: for
  every pair \<open>{a, b}\<close> at most one edge of the list joins it.
\<close>

theorem community_edges_no_duplicates:
  "occurrences (community_edges src N p1 p2 p3) a b \<le> 1"
  by (intro occurrences_le_1 community_edges_distinct_keys)

section \<open>The cycle generator: properties\<close>

text \<open>
  C1. For every \<open>N \<ge> 1\<close> and every random source the script reaches the file write,
  and its edge list is one edge from each element of the shuffled order to the next,
  followed by the closing edge from the last element to the first. Read in order, the
  edges start at the elements of the shuffled order and each ends where the next one
  starts (the last ends where the first starts); the shuffled order is a permutation of
  \<open>0, ..., N-1\<close>, so the walk visits every vertex exactly once before it closes.
\<close>

theorem cycle_edges_closed_cycle:
  assumes "1 \<le> N"
  shows "\<exists>es. cycle_edges src N = Inr es
    \<and> es = map (\<lambda>i. [shuffled src N ! i, shuffled src N ! (i + 1)]) [0..<nat N - 1]
             @ [[last (shuffled src N), hd (shuffled src N)]]
    \<and> map hd es = shuffled src N
    \<and> map last es = rotate1 (shuffled src N)
    \<and> mset (shuffled src N) = mset [0..<nat N]"
proof (intro exI[of _ "ring (shuffled src N)"] conjI)
  show "cycle_edges src N = Inr (ring (shuffled src N))"
    by (rule cycle_edges_ring[OF assms])
  show "ring (shuffled src N) =
      map (\<lambda>i. [shuffled src N ! i, shuffled src N ! (i + 1)]) [0..<nat N - 1]
        @ [[last (shuffled src N), hd (shuffled src N)]]"
    using cycle_edges_explicit[OF assms, of src] by (simp add: cycle_edges_ring[OF assms])
  show "map hd (ring (shuffled src N)) = shuffled src N"
    by (rule map_hd_ring)
  show "map last (ring (shuffled src N)) = rotate1 (shuffled src N)"
    by (rule map_last_ring)
  show "mset (shuffled src N) = mset [0..<nat N]"
    by (rule shuffled_mset)
qed

theorem cycle_edges_closed_cycle_witness:
  "(1::int) \<le> 4 \<and> shuffled spec_example 4 = [2, 0, 3, 1]
   \<and> (\<exists>es. cycle_edges spec_example 4 = Inr es
         \<and> es = [[2, 0], [0, 3], [3, 1], [1, 2]]
         \<and> map hd es = [2, 0, 3, 1]
         \<and> map last es = rotate1 [2, 0, 3, 1]
         \<and> mset [2, 0, 3, 1] = mset [0..<nat 4])"
  using cycle_edges_closed_cycle [of 4 spec_example]
  by (simp add: shuffled_spec_example cycle_edges_spec_example)

text \<open>
  The spec's own example, shuffled order \<open>[2, 0, 3, 1]\<close>: the script writes the edges
  \<open>[[2, 0], [0, 3], [3, 1], [1, 2]]\<close>, integer indices, where the spec lists the pairs
  of strings \<open>[["3","1"], ["1","4"], ["4","2"], ["2","3"]]\<close>.
\<close>

theorem cycle_document_string_pairs_counterexample:
  "cycle_document spec_example 4 =
     Inr (JObject
       [(''vertices'', JArray [JString ''1'', JString ''2'', JString ''3'', JString ''4'']),
        (''edges'', JArray [JArray [JInt 2, JInt 0], JArray [JInt 0, JInt 3],
                            JArray [JInt 3, JInt 1], JArray [JInt 1, JInt 2]])])
   \<and> \<not> string_pair (JArray [JInt 2, JInt 0])"
  by (simp add: cycle_document_def cycle_edges_spec_example document_def vertices_4 edge_json_def)

text \<open>
  C2, as the code has it. For every \<open>N \<ge> 1\<close> each edge of the written document is a
  two-element array of integers, both indices in \<open>[0, N)\<close> into the \<open>vertices\<close> array,
  whose entry \<open>i\<close> is the decimal string of \<open>i + 1\<close>. Neither script turns an index
  into a vertex identifier.
\<close>

theorem cycle_document_index_pairs:
  assumes "1 \<le> N"
  shows "\<exists>es. cycle_document src N =
            Inr (JObject [(''vertices'', JArray (map JString (vertices N))), (''edges'', JArray es)])
    \<and> (\<forall>e \<in> set es. \<exists>a b. e = JArray [JInt (int a), JInt (int b)]
           \<and> a < nat N \<and> b < nat N
           \<and> vertices N ! a = str_nat (a + 1) \<and> vertices N ! b = str_nat (b + 1))"
proof -
  let ?sh = "shuffled src N"
  have n: "length ?sh = nat N" by (rule shuffled_length)
  have pos: "0 < nat N" using assms by simp
  have "\<exists>a b. edge_json e = JArray [JInt (int a), JInt (int b)]
           \<and> a < nat N \<and> b < nat N
           \<and> vertices N ! a = str_nat (a + 1) \<and> vertices N ! b = str_nat (b + 1)"
    if "e \<in> set (ring ?sh)" for e
  proof -
    from that obtain k where k: "k < nat N" and e: "e = [?sh ! k, ?sh ! (Suc k mod nat N)]"
      by (auto simp: ring_def n)
    have k': "Suc k mod nat N < nat N" by (rule mod_less_divisor[OF pos])
    have a: "?sh ! k < nat N" and b: "?sh ! (Suc k mod nat N) < nat N"
      by (rule shuffled_nth_less[OF k], rule shuffled_nth_less[OF k'])
    show ?thesis
      using a b by (simp add: e edge_json_def vertices_nth)
  qed
  then show ?thesis
    by (simp add: cycle_document_ring[OF assms] document_def)
qed

theorem cycle_document_index_pairs_witness:
  "(1::int) \<le> 4
   \<and> (\<exists>es. cycle_document spec_example 4 =
            Inr (JObject [(''vertices'', JArray (map JString (vertices 4))), (''edges'', JArray es)])
        \<and> (\<forall>e \<in> set es. \<exists>a b. e = JArray [JInt (int a), JInt (int b)]
              \<and> a < nat 4 \<and> b < nat 4
              \<and> vertices 4 ! a = str_nat (a + 1) \<and> vertices 4 ! b = str_nat (b + 1)))"
proof -
  have h: "(1::int) \<le> 4" by simp
  show ?thesis
    using h cycle_document_index_pairs [OF h, of spec_example] by simp
qed

text \<open>
  At \<open>N = 1\<close> the only edge is the self-loop \<open>[0, 0]\<close>: vertex \<open>0\<close> is an endpoint of
  one edge, not of two.
\<close>

theorem cycle_incident_counterexample:
  "length (vertices 1) = 1 \<and> cycle_edges id 1 = Inr [[0, 0]] \<and> incident [[0, 0]] 0 = 1"
  by (simp add: cycle_edges_id_1 incident_def length_vertices)

text \<open>
  C3, as the code has it. For every \<open>N \<ge> 1\<close> there are \<open>N\<close> vertices and \<open>N\<close> edges, and
  every vertex index fills exactly two endpoint positions of the edge list; from
  \<open>N = 2\<close> on these lie in exactly two edges.
\<close>

theorem cycle_counts:
  assumes "1 \<le> N"
  shows "length (vertices N) = nat N
    \<and> (\<exists>es. cycle_edges src N = Inr es \<and> length es = nat N
          \<and> (\<forall>v < nat N. degree es v = 2 \<and> (2 \<le> N \<longrightarrow> incident es v = 2)))"
proof -
  let ?sh = "shuffled src N"
  have d: "distinct ?sh" by (rule shuffled_distinct)
  have deg: "degree (ring ?sh) v = 2" if "v < nat N" for v
    using that by (intro degree_ring d) (simp add: shuffled_set)
  have inc: "incident (ring ?sh) v = 2" if "v < nat N" "2 \<le> N" for v
    using that by (intro incident_ring d) (simp_all add: shuffled_set shuffled_length)
  show ?thesis
    using deg inc
    by (simp add: cycle_edges_ring[OF assms] length_ring shuffled_length length_vertices)
qed

theorem cycle_counts_witness:
  "(1::int) \<le> 3 \<and> (2::int) \<le> 3 \<and> (1::nat) < nat 3 \<and> length (vertices 3) = nat 3
   \<and> cycle_edges id 3 = Inr [[2, 1], [1, 0], [0, 2]]
   \<and> length [[2, 1], [1, 0], [0, 2::nat]] = nat 3
   \<and> degree [[2, 1], [1, 0], [0, 2]] 1 = 2 \<and> incident [[2, 1], [1, 0], [0, 2]] 1 = 2"
  using cycle_counts [of 3 id]
  by (simp add: cycle_edges_id_3)

text \<open>
  At \<open>N = 2\<close> the loop emits \<open>[1, 0]\<close> and the closing edge is \<open>[0, 1]\<close>: the same
  unordered pair twice.
\<close>

theorem cycle_duplicate_counterexample:
  "cycle_edges id 2 = Inr [[1, 0], [0, 1]] \<and> occurrences [[1, 0], [0, 1]] 0 1 = 2"
  by (simp add: cycle_edges_id_2 occurrences_def joins_def)

text \<open>
  C6, as the code has it. For \<open>N = 1\<close> and for every \<open>N \<ge> 3\<close> no unordered pair of
  endpoints is joined by two edges of the cycle generator's list.
\<close>

theorem cycle_edges_no_duplicates:
  assumes "N = 1 \<or> 3 \<le> N"
  shows "\<exists>es. cycle_edges src N = Inr es \<and> (\<forall>a b. occurrences es a b \<le> 1)"
proof -
  have n: "1 \<le> N" using assms by auto
  have l: "length (shuffled src N) = 1 \<or> 3 \<le> length (shuffled src N)"
    using assms by (auto simp: shuffled_length)
  have "distinct (map set (ring (shuffled src N)))"
    by (rule distinct_keys_ring[OF shuffled_distinct l])
  then have "occurrences (ring (shuffled src N)) a b \<le> 1" for a b
    by (rule occurrences_le_1)
  then show ?thesis
    by (simp add: cycle_edges_ring[OF n])
qed

theorem cycle_edges_no_duplicates_witness:
  "((3::int) = 1 \<or> (3::int) \<le> 3)
   \<and> cycle_edges id 3 = Inr [[2, 1], [1, 0], [0, 2]]
   \<and> occurrences [[2, 1], [1, 0], [0, 2]] 1 2 \<le> 1"
  using cycle_edges_no_duplicates [of 3 id]
  by (simp add: cycle_edges_id_3)

section \<open>Both generators: the output is a function of the draws\<close>

text \<open>
  C8. Each generator's output document is determined by the draws it reads from the
  random source: two runs whose sources deliver the same draws at the positions read
  (the first \<open>N - 1\<close> for the cycle generator, the first \<open>N + N (N - 1) / 2\<close> for the
  community generator) write the same document, whatever the sources deliver later.
  In particular two runs from the same seed, which see the same source throughout,
  write identical documents.
\<close>

theorem same_draws_same_document:
  "((\<forall>i < nat N - 1. src i = src' i) \<longrightarrow> cycle_document src N = cycle_document src' N)
   \<and> ((\<forall>i < nat N + nat N * (nat N - 1) div 2. src i = src' i) \<longrightarrow>
        community_document src N p1 p2 p3 = community_document src' N p1 p2 p3)"
proof (intro conjI impI)
  assume "\<forall>i < nat N - 1. src i = src' i"
  then show "cycle_document src N = cycle_document src' N"
    by (rule cycle_document_cong)
next
  assume "\<forall>i < nat N + nat N * (nat N - 1) div 2. src i = src' i"
  then have "community_edges src N p1 p2 p3 = community_edges src' N p1 p2 p3"
    by (rule community_edges_cong)
  then show "community_document src N p1 p2 p3 = community_document src' N p1 p2 p3"
    by (simp only: community_document_def)
qed

theorem same_draws_same_document_witness:
  "map id [0..<6] = map (min 5) [0..<6::nat] \<and> id (6::nat) \<noteq> min 5 6
   \<and> cycle_document id 3 = cycle_document (min 5) 3
   \<and> community_document id 3 (1 / 100) (1 / 100) (1 / 1000)
       = community_document (min 5) 3 (1 / 100) (1 / 100) (1 / 1000)"
proof -
  have a: "\<forall>i < nat 3 - 1. id i = min 5 i" by simp
  have b: "\<forall>i < nat 3 + nat 3 * (nat 3 - 1) div 2. id i = min 5 i" by simp
  have c: "((\<forall>i < nat 3 - 1. id i = min 5 i) \<longrightarrow> cycle_document id 3 = cycle_document (min 5) 3)
   \<and> ((\<forall>i < nat 3 + nat 3 * (nat 3 - 1) div 2. id i = min 5 i) \<longrightarrow>
        community_document id 3 (1 / 100) (1 / 100) (1 / 1000)
          = community_document (min 5) 3 (1 / 100) (1 / 100) (1 / 1000))"
    by (rule same_draws_same_document)
  from c[THEN conjunct1] a have x: "cycle_document id 3 = cycle_document (min 5) 3"
    by (rule mp)
  from c[THEN conjunct2] b
  have y: "community_document id 3 (1 / 100) (1 / 100) (1 / 1000)
             = community_document (min 5) 3 (1 / 100) (1 / 100) (1 / 1000)"
    by (rule mp)
  have d: "id (6::nat) \<noteq> min 5 6" by simp
  have e: "map id [0..<6] = map (min 5) [0..<6::nat]" by (simp add: upt_conv_Cons)
  show ?thesis by (intro conjI e d x y)
qed

end
